theory Spec2Isabelle
  imports Complex_Main "HOL-Library.Word"
begin

section \<open>Python values used by \<open>utils.py\<close>\<close>

text \<open>
  The exceptions that the modelled code can raise. \<open>Cv2Error\<close> stands for any exception
  raised from inside a call into OpenCV (a failed assertion of the library, or an argument
  that the binding cannot convert to a C \<open>int\<close>).
\<close>

datatype error = ZeroDivisionError | OverflowError | ValueError | IndexError | Cv2Error

subsection \<open>Double precision floats\<close>

text \<open>
  A Python \<open>float\<close> is an IEEE 754 binary64 number. A finite float is represented by the
  rational number it denotes (the sign of zero is not represented: no operation of the
  modelled code distinguishes \<open>-0.0\<close> from \<open>0.0\<close>).
\<close>

datatype pyfloat = Finite rat | PosInf | NegInf | NaN

text \<open>The number of binary digits of a natural number (Python's \<open>int.bit_length\<close>).\<close>

fun bit_length :: "nat \<Rightarrow> nat" where
  "bit_length n = (if n = 0 then 0 else Suc (bit_length (n div 2)))"

declare bit_length.simps [simp del]

text \<open>For \<open>x > 0\<close>, the integer \<open>k\<close> with \<open>2 ^ k \<le> x < 2 ^ (k + 1)\<close>.\<close>

definition floor_log2 :: "rat \<Rightarrow> int" where
  "floor_log2 x =
     (if 1 \<le> x then int (bit_length (nat \<lfloor>x\<rfloor>)) - 1
      else - int (bit_length (nat (\<lceil>1 / x\<rceil> - 1))))"

text \<open>Rounding to the nearest integer, a tie going to the even neighbour.\<close>

definition round_half_even :: "rat \<Rightarrow> int" where
  "round_half_even y =
     (let f = \<lfloor>y\<rfloor>; d = y - of_int f
      in if d < 1 / 2 then f
         else if 1 / 2 < d then f + 1
         else if even f then f else f + 1)"

text \<open>
  Rounding a rational to binary64, round-to-nearest with ties to even: 53 significant
  bits, the exponent of the last place never below \<open>-1074\<close> (subnormal numbers). The
  result is not yet checked against the largest finite double; the operations below do so.
\<close>

definition round_double :: "rat \<Rightarrow> rat" where
  "round_double x =
     (if x = 0 then 0
      else let e = max (floor_log2 \<bar>x\<bar> - 52) (- 1074)
           in sgn x * of_int (round_half_even (\<bar>x\<bar> / 2 powi e)) * 2 powi e)"

text \<open>Every finite double is smaller in magnitude than \<open>2 ^ 1024\<close>.\<close>

definition double_limit :: rat where
  "double_limit = 2 ^ 1024"

text \<open>
  \<open>a / b\<close> on two Python ints: the correctly rounded quotient; \<open>ZeroDivisionError\<close> for a
  zero divisor, \<open>OverflowError\<close> when the quotient is too large for a float.
\<close>

definition py_truediv :: "int \<Rightarrow> int \<Rightarrow> error + rat" where
  "py_truediv a b =
     (if b = 0 then Inl ZeroDivisionError
      else let r = round_double (of_int a / of_int b)
           in if double_limit \<le> \<bar>r\<bar> then Inl OverflowError else Inr r)"

text \<open>\<open>float(n)\<close> for a Python int, as done implicitly by \<open>n * x\<close> with a float \<open>x\<close>.\<close>

definition py_int_to_float :: "int \<Rightarrow> error + rat" where
  "py_int_to_float n =
     (let r = round_double (of_int n)
      in if double_limit \<le> \<bar>r\<bar> then Inl OverflowError else Inr r)"

text \<open>The product of two finite floats; a product that is too large is an infinity.\<close>

definition float_mul :: "rat \<Rightarrow> rat \<Rightarrow> pyfloat" where
  "float_mul a b =
     (let r = round_double (a * b)
      in if double_limit \<le> r then PosInf
         else if r \<le> - double_limit then NegInf
         else Finite r)"

text \<open>\<open>n * x\<close> for a Python int \<open>n\<close> and a finite float \<open>x\<close>.\<close>

definition py_int_mul_float :: "int \<Rightarrow> rat \<Rightarrow> error + pyfloat" where
  "py_int_mul_float n x =
     (case py_int_to_float n of
        Inl e \<Rightarrow> Inl e
      | Inr m \<Rightarrow> Inr (float_mul m x))"

text \<open>\<open>math.ceil\<close> on a float.\<close>

fun math_ceil :: "pyfloat \<Rightarrow> error + int" where
  "math_ceil (Finite r) = Inr \<lceil>r\<rceil>"
| "math_ceil PosInf = Inl OverflowError"
| "math_ceil NegInf = Inl OverflowError"
| "math_ceil NaN = Inl ValueError"

text \<open>The comparisons \<open><\<close>, \<open>>\<close> and \<open>>=\<close> of two floats; any comparison with a NaN is false.\<close>

fun float_lt :: "pyfloat \<Rightarrow> pyfloat \<Rightarrow> bool" where
  "float_lt NaN _ = False"
| "float_lt _ NaN = False"
| "float_lt (Finite a) (Finite b) = (a < b)"
| "float_lt (Finite a) PosInf = True"
| "float_lt (Finite a) NegInf = False"
| "float_lt NegInf NegInf = False"
| "float_lt NegInf _ = True"
| "float_lt PosInf _ = False"

definition float_gt :: "pyfloat \<Rightarrow> pyfloat \<Rightarrow> bool" where
  "float_gt a b = float_lt b a"

definition float_ge :: "pyfloat \<Rightarrow> pyfloat \<Rightarrow> bool" where
  "float_ge a b = (a \<noteq> NaN \<and> b \<noteq> NaN \<and> \<not> float_lt a b)"

subsection \<open>List indexing\<close>

text \<open>\<open>xs[i]\<close>: a negative index counts from the end, an index out of range raises.\<close>

definition py_getitem :: "'a list \<Rightarrow> int \<Rightarrow> error + 'a" where
  "py_getitem xs i =
     (if 0 \<le> i \<and> i < int (length xs) then Inr (xs ! nat i)
      else if - int (length xs) \<le> i \<and> i < 0 then Inr (xs ! nat (int (length xs) + i))
      else Inl IndexError)"

section \<open>Image buffers\<close>

text \<open>
  An RGB image is an array of shape \<open>(height, width, 3)\<close> of bytes. Arrays are objects:
  a store maps addresses to arrays, and a new array is placed at the next free address.
  The store is polymorphic in what a buffer holds.
\<close>

type_synonym pixel = "8 word \<times> 8 word \<times> 8 word"

record image =
  height :: nat
  width :: nat
  pix :: "nat \<Rightarrow> nat \<Rightarrow> pixel"

record 'b store =
  cells :: "nat \<Rightarrow> 'b"
  next_addr :: nat

definition alloc :: "'b store \<Rightarrow> 'b \<Rightarrow> 'b store \<times> nat" where
  "alloc st b = (st\<lparr>cells := (cells st)(next_addr st := b), next_addr := Suc (next_addr st)\<rparr>,
                 next_addr st)"

subsection \<open>The OpenCV functions called by \<open>utils.py\<close>\<close>

text \<open>Dimensions and border widths are C \<open>int\<close>s inside OpenCV.\<close>

definition INT_MAX :: int where
  "INT_MAX = 2147483647"

definition fits_c_int :: "int \<Rightarrow> bool" where
  "fits_c_int n = (- INT_MAX - 1 \<le> n \<and> n \<le> INT_MAX)"

text \<open>
  \<open>cv2.resize(src, (w, h))\<close> fails on an empty source and on a size that is not positive
  in both components; otherwise it returns a new array of \<open>h\<close> rows and \<open>w\<close> columns. Its
  content is computed by OpenCV's bilinear interpolation, which is a parameter here:
  \<open>interp src w h\<close> is the content of the result.
\<close>

type_synonym interpolation = "image \<Rightarrow> nat \<Rightarrow> nat \<Rightarrow> nat \<Rightarrow> nat \<Rightarrow> pixel"

definition cv2_resize ::
  "interpolation \<Rightarrow> image store \<Rightarrow> nat \<Rightarrow> int \<times> int \<Rightarrow> error + (image store \<times> nat)" where
  "cv2_resize interp st src dsize =
     (let img = cells st src; w = fst dsize; h = snd dsize
      in if \<not> (fits_c_int w \<and> fits_c_int h) then Inl Cv2Error
         else if height img = 0 \<or> width img = 0 then Inl Cv2Error
         else if w \<le> 0 \<or> h \<le> 0 then Inl Cv2Error
         else Inr (alloc st \<lparr>height = nat h, width = nat w, pix = interp img (nat w) (nat h)\<rparr>))"

text \<open>The value of a border pixel when none is given: zero in each channel.\<close>

definition black :: pixel where
  "black = (0, 0, 0)"

text \<open>
  \<open>cv2.copyMakeBorder(src, top, bottom, left, right, cv2.BORDER_CONSTANT)\<close> (the four
  widths are \<open>ptop\<close>, \<open>pbottom\<close>, \<open>pleft\<close>, \<open>pright\<close> below) fails on a negative border width; otherwise it returns a new array, the source surrounded by borders
  of the given widths filled with the default border value. A result whose dimensions do
  not fit a C \<open>int\<close> cannot be created.
\<close>

definition cv2_copyMakeBorder ::
  "image store \<Rightarrow> nat \<Rightarrow> int \<Rightarrow> int \<Rightarrow> int \<Rightarrow> int \<Rightarrow> error + (image store \<times> nat)" where
  "cv2_copyMakeBorder st src ptop pbottom pleft pright =
     (let img = cells st src
      in if \<not> (fits_c_int ptop \<and> fits_c_int pbottom \<and> fits_c_int pleft \<and> fits_c_int pright)
         then Inl Cv2Error
         else if ptop < 0 \<or> pbottom < 0 \<or> pleft < 0 \<or> pright < 0 then Inl Cv2Error
         else if \<not> (fits_c_int (ptop + int (height img) + pbottom)
                    \<and> fits_c_int (pleft + int (width img) + pright)) then Inl Cv2Error
         else Inr (alloc st
           \<lparr>height = nat ptop + height img + nat pbottom,
            width = nat pleft + width img + nat pright,
            pix = (\<lambda>r c. if nat ptop \<le> r \<and> r < nat ptop + height img
                             \<and> nat pleft \<le> c \<and> c < nat pleft + width img
                          then pix img (r - nat ptop) (c - nat pleft)
                          else black)\<rparr>))"

text \<open>
  The drawing calls \<open>cv2.circle(image, center, radius, color, thickness)\<close> and
  \<open>cv2.line(image, pt1, pt2, color, thickness)\<close>, as values. They change the buffer in
  place; what they paint is OpenCV's business and is a parameter \<open>draw\<close> of the model of
  \<open>visualize\<close>.
\<close>

type_synonym point = "int \<times> int"
type_synonym color = "int \<times> int \<times> int"

datatype draw_call = Circle point int color int | Line point point color int

section \<open>The module \<open>utils.py\<close>\<close>

subsection \<open>The detections\<close>

text \<open>
  Modelled from the spec: the classes \<open>KeyPoint\<close> and \<open>Person\<close> of the module \<open>data\<close>, which
  \<open>utils.py\<close> imports. A keypoint is an integer pixel coordinate with a confidence score;
  a person is a sequence of keypoints, a bounding box and an overall confidence score.
\<close>

record keypoint =
  coordinate :: point
  kp_score :: pyfloat

record person =
  keypoints :: "keypoint list"
  bounding_box :: "point \<times> point"
  score :: pyfloat

subsection \<open>The edge colours\<close>

text \<open>The dictionary, in the order of its declaration, which is the order of \<open>items()\<close>.\<close>

definition KEYPOINT_EDGE_INDS_TO_COLOR :: "((int \<times> int) \<times> color) list" where
  "KEYPOINT_EDGE_INDS_TO_COLOR =
     [((0, 1), (147, 20, 255)),
      ((0, 2), (255, 255, 0)),
      ((1, 3), (147, 20, 255)),
      ((2, 4), (255, 255, 0)),
      ((0, 5), (147, 20, 255)),
      ((0, 6), (255, 255, 0)),
      ((5, 7), (147, 20, 255)),
      ((7, 9), (147, 20, 255)),
      ((6, 8), (255, 255, 0)),
      ((8, 10), (255, 255, 0)),
      ((5, 6), (0, 255, 255)),
      ((5, 11), (147, 20, 255)),
      ((6, 12), (255, 255, 0)),
      ((11, 12), (0, 255, 255)),
      ((11, 13), (147, 20, 255)),
      ((13, 15), (147, 20, 255)),
      ((12, 14), (255, 255, 0)),
      ((14, 16), (255, 255, 0))]"

subsection \<open>\<open>visualize\<close>\<close>

text \<open>The loop over \<open>range(len(keypoints))\<close> that draws the landmarks.\<close>

definition draw_landmarks ::
  "(draw_call \<Rightarrow> 'b \<Rightarrow> 'b) \<Rightarrow> color \<Rightarrow> pyfloat \<Rightarrow> keypoint list \<Rightarrow> 'b \<Rightarrow> 'b" where
  "draw_landmarks draw keypoint_color keypoint_threshold kps b =
     fold (\<lambda>i b. if float_ge (kp_score (kps ! i)) keypoint_threshold
                  then draw (Circle (coordinate (kps ! i)) 2 keypoint_color 4) b
                  else b)
          [0..<length kps] b"

text \<open>
  The loop over the items of the edge table. The second score is only read when the first
  one passes (\<open>and\<close> does not evaluate its right operand otherwise).
\<close>

fun draw_edges ::
  "(draw_call \<Rightarrow> 'b \<Rightarrow> 'b) \<Rightarrow> pyfloat \<Rightarrow> keypoint list \<Rightarrow> ((int \<times> int) \<times> color) list
     \<Rightarrow> 'b \<Rightarrow> error + 'b" where
  "draw_edges draw keypoint_threshold kps [] b = Inr b"
| "draw_edges draw keypoint_threshold kps ((edge_pair, color) # rest) b =
     (case py_getitem kps (fst edge_pair) of
        Inl e \<Rightarrow> Inl e
      | Inr k0 \<Rightarrow>
          if float_gt (kp_score k0) keypoint_threshold then
            (case py_getitem kps (snd edge_pair) of
               Inl e \<Rightarrow> Inl e
             | Inr k1 \<Rightarrow>
                 if float_gt (kp_score k1) keypoint_threshold
                 then draw_edges draw keypoint_threshold kps rest
                        (draw (Line (coordinate k0) (coordinate k1) color 2) b)
                 else draw_edges draw keypoint_threshold kps rest b)
          else draw_edges draw keypoint_threshold kps rest b)"

text \<open>The loop over the persons, on the content of the buffer.\<close>

fun visualize_persons ::
  "(draw_call \<Rightarrow> 'b \<Rightarrow> 'b) \<Rightarrow> color \<Rightarrow> pyfloat \<Rightarrow> pyfloat \<Rightarrow> person list \<Rightarrow> 'b \<Rightarrow> error + 'b" where
  "visualize_persons draw keypoint_color keypoint_threshold instance_threshold [] b = Inr b"
| "visualize_persons draw keypoint_color keypoint_threshold instance_threshold (p # ps) b =
     (if float_lt (score p) instance_threshold
      then visualize_persons draw keypoint_color keypoint_threshold instance_threshold ps b
      else
        (case draw_edges draw keypoint_threshold (keypoints p) KEYPOINT_EDGE_INDS_TO_COLOR
                (draw_landmarks draw keypoint_color keypoint_threshold (keypoints p) b) of
           Inl e \<Rightarrow> Inl e
         | Inr b' \<Rightarrow>
             visualize_persons draw keypoint_color keypoint_threshold instance_threshold ps b'))"

text \<open>
  \<open>visualize(image, list_persons, keypoint_color, keypoint_threshold, instance_threshold)\<close>:
  the buffer at the address \<open>image_ref\<close> of the image is changed in place, and that same
  address is returned. When a person has too few keypoints for the edge table the call
  raises \<open>IndexError\<close>; the result is then the error alone (what had been drawn before it
  is not part of the result). The defaults of the last three parameters are
  \<open>(0, 255, 0)\<close>, \<open>0.05\<close> and \<open>0.1\<close>.
\<close>

definition visualize ::
  "(draw_call \<Rightarrow> 'b \<Rightarrow> 'b) \<Rightarrow> 'b store \<Rightarrow> nat \<Rightarrow> person list \<Rightarrow> color \<Rightarrow> pyfloat \<Rightarrow> pyfloat
     \<Rightarrow> error + ('b store \<times> nat)" where
  "visualize draw st image_ref list_persons keypoint_color keypoint_threshold instance_threshold =
     (case visualize_persons draw keypoint_color keypoint_threshold instance_threshold
             list_persons (cells st image_ref) of
        Inl e \<Rightarrow> Inl e
      | Inr b \<Rightarrow> Inr (st\<lparr>cells := (cells st)(image_ref := b)\<rparr>, image_ref))"

subsection \<open>\<open>keep_aspect_ratio_resizer\<close>\<close>

text \<open>The expression \<open>int(math.ceil(n / 32) * 32)\<close>.\<close>

definition ceil_to_32 :: "int \<Rightarrow> error + int" where
  "ceil_to_32 n =
     (case py_truediv n 32 of
        Inl e \<Rightarrow> Inl e
      | Inr q \<Rightarrow> (case math_ceil (Finite q) of
                    Inl e \<Rightarrow> Inl e
                  | Inr c \<Rightarrow> Inr (c * 32)))"

text \<open>The expression \<open>math.ceil(n * scale)\<close>.\<close>

definition ceil_scaled :: "int \<Rightarrow> rat \<Rightarrow> error + int" where
  "ceil_scaled n scale =
     (case py_int_mul_float n scale of
        Inl e \<Rightarrow> Inl e
      | Inr x \<Rightarrow> math_ceil x)"

text \<open>Lines 108 to 121: the padding of the resized image, and the result.\<close>

definition pad_to_target ::
  "image store \<Rightarrow> nat \<Rightarrow> int \<Rightarrow> int \<Rightarrow> error + (image store \<times> nat \<times> (int \<times> int))" where
  "pad_to_target st image_ref target_height target_width =
     (let padding_top = 0; padding_left = 0;
          padding_bottom = target_height - int (height (cells st image_ref));
          padding_right = target_width - int (width (cells st image_ref))
      in case cv2_copyMakeBorder st image_ref padding_top padding_bottom padding_left padding_right of
           Inl e \<Rightarrow> Inl e
         | Inr (st', image_ref') \<Rightarrow> Inr (st', image_ref', (target_height, target_width)))"

text \<open>
  \<open>keep_aspect_ratio_resizer(image, target_size)\<close>; the argument \<open>target_size\<close> is
  \<open>target_sz\<close> here, and the image is given by its address \<open>image_ref\<close>.
\<close>

definition keep_aspect_ratio_resizer ::
  "interpolation \<Rightarrow> image store \<Rightarrow> nat \<Rightarrow> int
     \<Rightarrow> error + (image store \<times> nat \<times> (int \<times> int))" where
  "keep_aspect_ratio_resizer interp st image_ref target_sz =
     (let height = int (height (cells st image_ref)); width = int (width (cells st image_ref))
      in if height > width then
           (case py_truediv target_sz height of
              Inl e \<Rightarrow> Inl e
            | Inr scale \<Rightarrow>
                let target_height = target_sz
                in (case ceil_scaled width scale of
                      Inl e \<Rightarrow> Inl e
                    | Inr scaled_width \<Rightarrow>
                        (case cv2_resize interp st image_ref (scaled_width, target_height) of
                           Inl e \<Rightarrow> Inl e
                         | Inr (st', image_ref') \<Rightarrow>
                             (case ceil_to_32 scaled_width of
                                Inl e \<Rightarrow> Inl e
                              | Inr target_width \<Rightarrow>
                                  pad_to_target st' image_ref' target_height target_width))))
         else
           (case py_truediv target_sz width of
              Inl e \<Rightarrow> Inl e
            | Inr scale \<Rightarrow>
                let target_width = target_sz
                in (case ceil_scaled height scale of
                      Inl e \<Rightarrow> Inl e
                    | Inr scaled_height \<Rightarrow>
                        (case cv2_resize interp st image_ref (target_width, scaled_height) of
                           Inl e \<Rightarrow> Inl e
                         | Inr (st', image_ref') \<Rightarrow>
                             (case ceil_to_32 scaled_height of
                                Inl e \<Rightarrow> Inl e
                              | Inr target_height \<Rightarrow>
                                  pad_to_target st' image_ref' target_height target_width)))))"

section \<open>Notions used to state the properties\<close>

subsection \<open>The drawing calls of one person\<close>




text \<open>A rasteriser that only records the calls it receives, in order.\<close>

definition record_call :: "draw_call \<Rightarrow> draw_call list \<Rightarrow> draw_call list" where
  "record_call c calls = calls @ [c]"

subsection \<open>The shapes computed by the resizer\<close>

text \<open>
  The value of \<open>math.ceil(n * float(t / m))\<close> when no operation fails: the quotient is
  rounded to a double, the product is rounded to a double, the ceiling is exact.
\<close>

definition scaled_side :: "int \<Rightarrow> int \<Rightarrow> int \<Rightarrow> int" where
  "scaled_side n m t = \<lceil>round_double (of_int n * round_double (of_int t / of_int m))\<rceil>"

text \<open>The value of \<open>int(math.ceil(n / 32) * 32)\<close> when the division is exact.\<close>

definition round_up_32 :: "int \<Rightarrow> int" where
  "round_up_32 n = \<lceil>of_int n / (32 :: rat)\<rceil> * 32"

text \<open>
  The inputs the resizer is specified for: the image is an allocated array with a positive
  height and width (which OpenCV holds as C \<open>int\<close>s), and the target size is positive. The
  padded result is up to 32 larger than the target size and has to fit a C \<open>int\<close> too.
\<close>

definition valid_input :: "image store \<Rightarrow> nat \<Rightarrow> int \<Rightarrow> bool" where
  "valid_input st image_ref target_sz =
     (image_ref < next_addr st
      \<and> 0 < height (cells st image_ref) \<and> int (height (cells st image_ref)) \<le> INT_MAX
      \<and> 0 < width (cells st image_ref) \<and> int (width (cells st image_ref)) \<le> INT_MAX
      \<and> 0 < target_sz \<and> target_sz + 32 \<le> INT_MAX)"

text \<open>The (height, width) that \<open>cv2.resize\<close> is asked for.\<close>

definition resized_shape :: "image \<Rightarrow> int \<Rightarrow> int \<times> int" where
  "resized_shape img target_sz =
     (if height img > width img
      then (target_sz, scaled_side (int (width img)) (int (height img)) target_sz)
      else (scaled_side (int (height img)) (int (width img)) target_sz, target_sz))"

text \<open>The pair \<open>(target_height, target_width)\<close>.\<close>

definition target_shape :: "image \<Rightarrow> int \<Rightarrow> int \<times> int" where
  "target_shape img target_sz =
     (if height img > width img
      then (target_sz, round_up_32 (snd (resized_shape img target_sz)))
      else (round_up_32 (fst (resized_shape img target_sz)), target_sz))"

text \<open>The array that \<open>cv2.resize\<close> returns.\<close>

definition resized_image :: "interpolation \<Rightarrow> image \<Rightarrow> int \<Rightarrow> image" where
  "resized_image interp img target_sz =
     \<lparr>height = nat (fst (resized_shape img target_sz)),
      width = nat (snd (resized_shape img target_sz)),
      pix = interp img (nat (snd (resized_shape img target_sz)))
              (nat (fst (resized_shape img target_sz)))\<rparr>"

text \<open>The resized array in the top left corner of a black canvas of the target shape.\<close>

definition padded_image :: "interpolation \<Rightarrow> image \<Rightarrow> int \<Rightarrow> image" where
  "padded_image interp img target_sz =
     \<lparr>height = nat (fst (target_shape img target_sz)),
      width = nat (snd (target_shape img target_sz)),
      pix = (\<lambda>r c. if r < height (resized_image interp img target_sz)
                       \<and> c < width (resized_image interp img target_sz)
                    then pix (resized_image interp img target_sz) r c
                    else black)\<rparr>"

subsection \<open>Example data\<close>

text \<open>
  A person of 17 keypoints: keypoints 0 and 2 are well above the threshold \<open>0.05\<close>,
  keypoint 1 has exactly the score \<open>0.05\<close>, all others have score \<open>0\<close>.
\<close>

definition threshold_005 :: pyfloat where
  "threshold_005 = Finite (3602879701896397 / 72057594037927936)"

definition example_keypoints :: "keypoint list" where
  "example_keypoints =
     [\<lparr>coordinate = (10, 10), kp_score = Finite (1 / 4)\<rparr>,
      \<lparr>coordinate = (20, 20), kp_score = threshold_005\<rparr>,
      \<lparr>coordinate = (30, 30), kp_score = Finite (1 / 4)\<rparr>]
     @ replicate 14 \<lparr>coordinate = (0, 0), kp_score = Finite 0\<rparr>"


definition weak_person :: person where
  "weak_person =
     \<lparr>keypoints = example_keypoints, bounding_box = ((0, 0), (40, 40)), score = Finite (1 / 16)\<rparr>"

definition empty_log_store :: "draw_call list store" where
  "empty_log_store = \<lparr>cells = (\<lambda>a. []), next_addr = 1\<rparr>"

text \<open>
  An image of a given shape, a store that holds it at address 0, and nearest-neighbour
  sampling as a stand-in for OpenCV's interpolation.
\<close>

definition example_image :: "nat \<Rightarrow> nat \<Rightarrow> image" where
  "example_image h w = \<lparr>height = h, width = w, pix = (\<lambda>r c. (of_nat r, of_nat c, 255))\<rparr>"

definition example_store :: "nat \<Rightarrow> nat \<Rightarrow> image store" where
  "example_store h w = \<lparr>cells = (\<lambda>a. example_image h w), next_addr = 1\<rparr>"

definition example_interp :: interpolation where
  "example_interp img w h r c = pix img (r * height img div h) (c * width img div w)"


section \<open>Rounding to a double\<close>

lemma bit_length_upper: "n < 2 ^ bit_length n"
proof (induction n rule: bit_length.induct)
  case (1 n)
  show ?case
  proof (cases "n = 0")
    case True
    then show ?thesis by (simp add: bit_length.simps)
  next
    case False
    with 1 have "n div 2 < 2 ^ bit_length (n div 2)" by simp
    then have "n < 2 * 2 ^ bit_length (n div 2)" by linarith
    with False show ?thesis by (simp add: bit_length.simps [of n])
  qed
qed

lemma bit_length_lower: "0 < n \<Longrightarrow> 2 ^ (bit_length n - 1) \<le> n"
proof (induction n rule: bit_length.induct)
  case (1 n)
  then have n: "n \<noteq> 0" by simp
  show ?case
  proof (cases "n div 2 = 0")
    case True
    then have "bit_length (n div 2) = 0" by (simp add: bit_length.simps)
    with n 1 show ?thesis by (simp add: bit_length.simps [of n])
  next
    case False
    with 1 n have ih: "2 ^ (bit_length (n div 2) - 1) \<le> n div 2" by simp
    from False have "0 < bit_length (n div 2)" by (simp add: bit_length.simps [of "n div 2"])
    then have "(2::nat) ^ bit_length (n div 2) = 2 * 2 ^ (bit_length (n div 2) - 1)"
      by (cases "bit_length (n div 2)") simp_all
    with ih have "2 ^ bit_length (n div 2) \<le> n" by linarith
    with n show ?thesis by (simp add: bit_length.simps [of n])
  qed
qed

lemma bit_length_pos: "0 < n \<Longrightarrow> 0 < bit_length n"
  by (simp add: bit_length.simps [of n])

lemma floor_log2_lower:
  assumes "0 < x"
  shows "2 powi (floor_log2 x) \<le> x"
proof (cases "1 \<le> x")
  case True
  define n where "n = nat \<lfloor>x\<rfloor>"
  from True have fl1: "1 \<le> \<lfloor>x\<rfloor>" by linarith
  then have npos: "0 < n" by (simp add: n_def)
  have k: "floor_log2 x = int (bit_length n - 1)"
    using True bit_length_pos [OF npos] by (simp add: floor_log2_def n_def)
  have "(2::rat) ^ (bit_length n - 1) = of_nat (2 ^ (bit_length n - 1))" by simp
  also have "\<dots> \<le> of_nat n" using bit_length_lower [OF npos] by (simp only: of_nat_le_iff)
  also have "\<dots> = of_int \<lfloor>x\<rfloor>" using fl1 by (simp add: n_def)
  also have "\<dots> \<le> x" by simp
  finally show ?thesis by (simp add: k)
next
  case False
  define y where "y = 1 / x"
  from False assms have y1: "1 < y" by (simp add: y_def)
  define m where "m = nat (\<lceil>y\<rceil> - 1)"
  have k: "floor_log2 x = - int (bit_length m)"
    using False by (simp add: floor_log2_def m_def y_def)
  have "y \<le> of_int \<lceil>y\<rceil>" by simp
  also have "\<lceil>y\<rceil> = int m + 1" using y1 by (simp add: m_def)
  also have "of_int (int m + 1) \<le> (of_nat (2 ^ bit_length m) :: rat)"
  proof -
    have "Suc m \<le> 2 ^ bit_length m" using bit_length_upper [of m] by simp
    then have "(of_nat (Suc m) :: rat) \<le> of_nat (2 ^ bit_length m)"
      by (simp only: of_nat_le_iff)
    then show ?thesis by (simp add: add.commute)
  qed
  finally have "y \<le> 2 ^ bit_length m" by simp
  then have "1 / 2 ^ bit_length m \<le> x"
    using assms by (simp add: y_def field_simps)
  then show ?thesis by (simp add: k power_int_minus_divide)
qed

lemma floor_log2_upper:
  assumes "0 < x"
  shows "x < 2 powi (floor_log2 x + 1)"
proof (cases "1 \<le> x")
  case True
  define n where "n = nat \<lfloor>x\<rfloor>"
  from True have fl1: "1 \<le> \<lfloor>x\<rfloor>" by linarith
  then have npos: "0 < n" by (simp add: n_def)
  have k: "floor_log2 x + 1 = int (bit_length n)"
    using True by (simp add: floor_log2_def n_def)
  have "x < of_int (\<lfloor>x\<rfloor> + 1)" by linarith
  also have "\<lfloor>x\<rfloor> + 1 = int (Suc n)" using fl1 by (simp add: n_def)
  also have "(of_int (int (Suc n)) :: rat) \<le> of_nat (2 ^ bit_length n)"
  proof -
    have "Suc n \<le> 2 ^ bit_length n" using bit_length_upper [of n] by simp
    then have "(of_nat (Suc n) :: rat) \<le> of_nat (2 ^ bit_length n)"
      by (simp only: of_nat_le_iff)
    then show ?thesis by simp
  qed
  finally have "x < 2 ^ bit_length n" by simp
  then show ?thesis by (simp only: k power_int_of_nat)
next
  case False
  define y where "y = 1 / x"
  from False assms have y1: "1 < y" by (simp add: y_def)
  define m where "m = nat (\<lceil>y\<rceil> - 1)"
  have c2: "2 \<le> \<lceil>y\<rceil>" using y1 by linarith
  then have mpos: "0 < m" by (simp add: m_def)
  have k: "floor_log2 x + 1 = - int (bit_length m - 1)"
    using False bit_length_pos [OF mpos] by (simp add: floor_log2_def m_def y_def)
  have "(2::rat) ^ (bit_length m - 1) = of_nat (2 ^ (bit_length m - 1))" by simp
  also have "\<dots> \<le> of_nat m" using bit_length_lower [OF mpos] by (simp only: of_nat_le_iff)
  also have "\<dots> = of_int (\<lceil>y\<rceil> - 1)" using c2 by (simp add: m_def)
  also have "\<dots> < y" by linarith
  finally have "2 ^ (bit_length m - 1) < y" .
  then have "x < 1 / 2 ^ (bit_length m - 1)"
    using assms by (simp add: y_def field_simps)
  then show ?thesis by (simp only: k power_int_minus_divide power_int_of_nat)
qed

lemma round_half_even_error: "\<bar>of_int (round_half_even y) - y\<bar> \<le> 1 / 2"
proof -
  define f where "f = \<lfloor>y\<rfloor>"
  define d where "d = y - of_int f"
  have d0: "0 \<le> d" and d1: "d < 1"
    unfolding d_def f_def by linarith+
  have r: "round_half_even y =
      (if d < 1 / 2 then f else if 1 / 2 < d then f + 1 else if even f then f else f + 1)"
    by (simp add: round_half_even_def Let_def d_def f_def)
  have lo: "of_int f - y = - d" and hi: "of_int (f + 1) - y = 1 - d"
    by (simp_all add: d_def)
  show ?thesis
  proof (cases "d < 1 / 2")
    case True
    then have "round_half_even y = f" by (simp add: r)
    then show ?thesis using d0 True lo by simp
  next
    case False
    note nlt = this
    show ?thesis
    proof (cases "1 / 2 < d")
      case True
      then have "round_half_even y = f + 1" using nlt by (simp add: r)
      then show ?thesis using d1 True hi by simp
    next
      case False
      with nlt have half: "d = 1 / 2" by simp
      then have "round_half_even y = f \<or> round_half_even y = f + 1" by (simp add: r)
      then show ?thesis using lo hi half by auto
    qed
  qed
qed

lemma round_half_even_of_int: "round_half_even (of_int n) = n"
  by (simp add: round_half_even_def)

lemma round_double_error:
  assumes "2 powi (- 1022) \<le> \<bar>x\<bar>"
  shows "\<bar>round_double x - x\<bar> \<le> \<bar>x\<bar> / 2 ^ 53"
proof -
  define a where "a = \<bar>x\<bar>"
  have "(0::rat) < 2 powi (- 1022)" by (rule zero_less_power_int) simp
  with assms have apos: "0 < a" by (simp add: a_def)
  then have x0: "x \<noteq> 0" by (auto simp: a_def)
  define k where "k = floor_log2 a"
  have lo: "2 powi k \<le> a" and hi: "a < 2 powi (k + 1)"
    unfolding k_def using floor_log2_lower [OF apos] floor_log2_upper [OF apos] by simp_all
  have k: "- 1022 \<le> k"
  proof (rule ccontr)
    assume "\<not> - 1022 \<le> k"
    then have "k + 1 \<le> - 1022" by simp
    then have "(2::rat) powi (k + 1) \<le> 2 powi (- 1022)"
      by (intro power_int_increasing) simp_all
    with hi assms show False by (simp add: a_def)
  qed
  define e where "e = k - 52"
  have e: "max (floor_log2 \<bar>x\<bar> - 52) (- 1074) = e"
    using k by (simp add: e_def k_def a_def)
  define y where "y = a / 2 powi e"
  have pe: "(0::rat) < 2 powi e" by (rule zero_less_power_int) simp
  have rd: "round_double x = sgn x * of_int (round_half_even y) * 2 powi e"
    using x0 by (simp add: round_double_def e Let_def y_def a_def)
  have xy: "x = sgn x * y * 2 powi e"
    using pe by (simp add: y_def a_def mult_sgn_abs)
  have "round_double x - x = sgn x * (of_int (round_half_even y) - y) * 2 powi e"
    by (subst rd, subst (2) xy) (simp add: algebra_simps)
  then have "\<bar>round_double x - x\<bar> = \<bar>of_int (round_half_even y) - y\<bar> * 2 powi e"
    using x0 pe by (simp add: abs_mult abs_sgn_eq)
  also have "\<dots> \<le> (1 / 2) * 2 powi e"
    using round_half_even_error [of y] pe by (intro mult_right_mono) simp_all
  also have "2 powi e = (2::rat) powi k / 2 ^ 52"
    by (simp add: e_def power_int_diff)
  also have "(1 / 2) * (2 powi k / 2 ^ 52) \<le> (1 / 2) * (a / 2 ^ 52)"
    using lo by (intro mult_left_mono divide_right_mono) simp_all
  finally show ?thesis by (simp add: a_def)
qed

lemma round_double_exact:
  assumes "0 < n" and "n < 2 ^ 53" and "j \<le> 1074"
  shows "round_double (of_int n / 2 ^ j) = of_int n / 2 ^ j"
proof -
  define x :: rat where "x = of_int n / 2 ^ j"
  have xpos: "0 < x" using assms(1) by (simp add: x_def)
  define k where "k = floor_log2 x"
  have lo: "2 powi k \<le> x"
    unfolding k_def using floor_log2_lower [OF xpos] .
  have "x < 2 ^ 53 / 2 ^ j"
    unfolding x_def using assms(2)
    by (intro divide_strict_right_mono) (simp_all add: of_int_less_numeral_power_cancel_iff)
  also have "\<dots> = 2 powi (53 - int j)"
    by (simp add: power_int_diff)
  finally have "(2::rat) powi k < 2 powi (53 - int j)" using lo by simp
  note lt = this
  have "k < 53 - int j"
  proof (rule ccontr)
    assume "\<not> k < 53 - int j"
    then have "(2::rat) powi (53 - int j) \<le> 2 powi k"
      by (intro power_int_increasing) simp_all
    with \<open>(2::rat) powi k < 2 powi (53 - int j)\<close> show False by simp
  qed
  define e where "e = max (k - 52) (- 1074)"
  have ej: "e \<le> - int j" using \<open>k < 53 - int j\<close> assms(3) by (simp add: e_def)
  define i where "i = nat (- int j - e)"
  have pe: "(0::rat) < 2 powi e" by (rule zero_less_power_int) simp
  have "x / 2 powi e = of_int n * 2 powi (- int j - e)"
    by (simp add: x_def power_int_diff power_int_minus_divide)
  also have "- int j - e = int i" using ej by (simp add: i_def)
  finally have q: "x / 2 powi e = of_int (n * 2 ^ i)" by simp
  have "round_double x = of_int (round_half_even (x / 2 powi e)) * 2 powi e"
    using xpos by (simp add: round_double_def Let_def e_def k_def)
  also have "\<dots> = (x / 2 powi e) * 2 powi e"
    by (simp only: q round_half_even_of_int)
  also have "\<dots> = x" using pe by simp
  finally show ?thesis by (simp add: x_def)
qed

lemma round_double_of_int:
  assumes "0 < n" and "n < 2 ^ 53"
  shows "round_double (of_int n) = of_int n"
  using round_double_exact [OF assms, of 0] by simp

lemma tiny_le: "(2::rat) powi (- 1022) \<le> 1 / 2 ^ 32"
proof -
  have "(2::rat) powi (- 1022) \<le> 2 powi (- 32)"
    by (intro power_int_increasing) simp_all
  then show ?thesis by (simp add: power_int_minus_divide)
qed

lemma round_double_bounds:
  assumes "1 / 2 ^ 32 \<le> x"
  shows "x * (1 - 1 / 2 ^ 53) \<le> round_double x" and "round_double x \<le> x * (1 + 1 / 2 ^ 53)"
proof -
  from assms have xpos: "0 < x" by (rule less_le_trans [rotated]) simp
  have big: "2 powi (- 1022) \<le> \<bar>x\<bar>" using tiny_le assms xpos by simp
  define d where "d = x / 2 ^ 53"
  from round_double_error [OF big] xpos
  have e: "\<bar>round_double x - x\<bar> \<le> d" by (simp add: d_def)
  have lo: "x * (1 - 1 / 2 ^ 53) = x - d" and hi: "x * (1 + 1 / 2 ^ 53) = x + d"
    by (simp_all add: d_def algebra_simps)
  from e show "x * (1 - 1 / 2 ^ 53) \<le> round_double x"
    unfolding lo by linarith
  from e show "round_double x \<le> x * (1 + 1 / 2 ^ 53)"
    unfolding hi by linarith
qed

lemma scale_bounds:
  assumes "0 < m" "m \<le> INT_MAX" "0 < t" "t \<le> INT_MAX"
  shows "1 / 2 ^ 32 \<le> round_double (of_int t / of_int m)"
    and "round_double (of_int t / of_int m) \<le> (of_int t / of_int m) * (1 + 1 / 2 ^ 53)"
    and "round_double (of_int t / of_int m) < 2 ^ 32"
proof -
  define q :: rat where "q = of_int t / of_int m"
  have mr: "(of_int m :: rat) \<le> 2147483647" "(0::rat) < of_int m"
    using assms(1,2) by (simp_all add: INT_MAX_def)
  have tr: "(of_int t :: rat) \<le> 2147483647" "(1::rat) \<le> of_int t"
    using assms(3,4) by (simp_all add: INT_MAX_def) linarith?
  have "1 / 2147483647 \<le> 1 / (of_int m :: rat)"
    using mr by (intro divide_left_mono) simp_all
  also have "\<dots> \<le> q" unfolding q_def using tr mr by (intro divide_right_mono) simp_all
  finally have qlo: "1 / 2147483647 \<le> q" .
  have "q \<le> of_int t / 1" unfolding q_def using mr tr assms(1)
    by (intro divide_left_mono) (simp_all, linarith?)
  then have qhi: "q \<le> 2147483647" using tr by simp
  have q32: "1 / 2 ^ 32 \<le> q" using qlo by simp
  note b = round_double_bounds [OF q32]
  have "1 / 2 ^ 32 \<le> (1 / 2147483647) * (1 - 1 / 2 ^ 53 :: rat)" by simp
  also have "\<dots> \<le> q * (1 - 1 / 2 ^ 53)" using qlo by (intro mult_right_mono) simp_all
  also have "\<dots> \<le> round_double q" by (rule b(1))
  finally show "1 / 2 ^ 32 \<le> round_double (of_int t / of_int m)" by (simp add: q_def)
  show "round_double (of_int t / of_int m) \<le> (of_int t / of_int m) * (1 + 1 / 2 ^ 53)"
    using b(2) by (simp add: q_def)
  have "round_double q \<le> q * (1 + 1 / 2 ^ 53)" by (rule b(2))
  also have "\<dots> \<le> 2147483647 * (1 + 1 / 2 ^ 53)" using qhi by (intro mult_right_mono) simp_all
  also have "\<dots> < 2 ^ 32" by simp
  finally show "round_double (of_int t / of_int m) < 2 ^ 32" by (simp add: q_def)
qed

lemma scaled_product_bounds:
  assumes "0 < n" "n \<le> m" "m \<le> INT_MAX" "0 < t" "t \<le> INT_MAX"
  shows "of_int n * of_int t / of_int m - 1 / 2
           \<le> round_double (of_int n * round_double (of_int t / of_int m))"
    and "round_double (of_int n * round_double (of_int t / of_int m))
           \<le> of_int n * of_int t / of_int m + 1 / 2"
    and "0 < round_double (of_int n * round_double (of_int t / of_int m))"
    and "(of_int n * of_int t / of_int m :: rat) \<le> of_int t"
proof -
  define s where "s = round_double (of_int t / of_int m)"
  define x :: rat where "x = of_int n * of_int t / of_int m"
  have mpos: "0 < m" using assms(1,2) by simp
  note sb = scale_bounds [OF mpos assms(3,4,5), folded s_def]
  define p where "p = of_int n * s"
  have nr: "(1::rat) \<le> of_int n" using assms(1) by simp linarith?
  have spos: "0 < s" using sb(1) by (rule less_le_trans [rotated]) simp
  have "s = 1 * s" by simp
  also have "\<dots> \<le> of_int n * s" using nr spos by (intro mult_right_mono) simp_all
  finally have ps: "s \<le> p" by (simp add: p_def)
  with sb(1) have p32: "1 / 2 ^ 32 \<le> p" by simp
  note pb = round_double_bounds [OF p32]
  have ppos: "0 < p" using p32 by (rule less_le_trans [rotated]) simp
  have "0 < p * (1 - 1 / 2 ^ 53)" using ppos by simp
  with pb(1) show "0 < round_double (of_int n * round_double (of_int t / of_int m))"
    by (simp add: p_def s_def)
  have tr: "(of_int t :: rat) \<le> 2147483647" "(0::rat) < of_int t"
    using assms(4,5) by (simp_all add: INT_MAX_def)
  have mr: "(0::rat) < of_int m" using mpos by simp
  have "(of_int n :: rat) * of_int t \<le> of_int m * of_int t"
    using assms(2) tr by (intro mult_right_mono) simp_all
  then have xt: "x \<le> of_int t"
    using mr by (simp add: x_def field_simps)
  then show "(of_int n * of_int t / of_int m :: rat) \<le> of_int t" by (simp add: x_def)
  have xpos: "0 \<le> x" unfolding x_def using nr tr mr by simp
  have q32: "1 / 2 ^ 32 \<le> of_int t / (of_int m :: rat)"
  proof -
    have "1 / 2 ^ 32 \<le> 1 / (2147483647 :: rat)" by simp
    also have "\<dots> \<le> 1 / of_int m"
      using mr assms(3) by (intro divide_left_mono) (simp_all add: INT_MAX_def)
    also have "\<dots> \<le> of_int t / of_int m"
      using mr tr assms(4) by (intro divide_right_mono) (simp_all, linarith?)
    finally show ?thesis .
  qed
  note qb = round_double_bounds [OF q32, folded s_def]
  have xq: "of_int n * (of_int t / of_int m) = x" by (simp add: x_def)
  \<comment> \<open>upper bound\<close>
  have "p \<le> of_int n * ((of_int t / of_int m) * (1 + 1 / 2 ^ 53))"
    unfolding p_def using qb(2) nr by (intro mult_left_mono) simp_all
  also have "\<dots> = x * (1 + 1 / 2 ^ 53)" by (simp add: x_def)
  finally have pt: "p \<le> x * (1 + 1 / 2 ^ 53)" .
  have "round_double p \<le> p * (1 + 1 / 2 ^ 53)" by (rule pb(2))
  also have "\<dots> \<le> (x * (1 + 1 / 2 ^ 53)) * (1 + 1 / 2 ^ 53)"
    using pt by (intro mult_right_mono) simp_all
  also have "\<dots> = x + x * ((1 + 1 / 2 ^ 53) * (1 + 1 / 2 ^ 53) - 1)"
    by (simp add: algebra_simps)
  also have "x * ((1 + 1 / 2 ^ 53) * (1 + 1 / 2 ^ 53) - 1)
      \<le> (2147483647::rat) * ((1 + 1 / 2 ^ 53) * (1 + 1 / 2 ^ 53) - 1)"
    using xt tr by (intro mult_right_mono) simp_all
  also have "\<dots> \<le> 1 / 2" by simp
  finally show "round_double (of_int n * round_double (of_int t / of_int m))
           \<le> of_int n * of_int t / of_int m + 1 / 2"
    by (simp add: p_def s_def x_def)
  \<comment> \<open>lower bound\<close>
  have "x * (1 - 1 / 2 ^ 53) = of_int n * ((of_int t / of_int m) * (1 - 1 / 2 ^ 53))"
    by (simp add: x_def)
  also have "\<dots> \<le> p"
    unfolding p_def using qb(1) nr by (intro mult_left_mono) simp_all
  finally have pl: "x * (1 - 1 / 2 ^ 53) \<le> p" .
  have "x - 1 / 2 \<le> x - (2147483647::rat) * (1 - (1 - 1 / 2 ^ 53) * (1 - 1 / 2 ^ 53))"
    by simp
  also have "\<dots> \<le> x - x * (1 - (1 - 1 / 2 ^ 53) * (1 - 1 / 2 ^ 53))"
  proof -
    have "x * (1 - (1 - 1 / 2 ^ 53) * (1 - 1 / 2 ^ 53))
        \<le> (2147483647::rat) * (1 - (1 - 1 / 2 ^ 53) * (1 - 1 / 2 ^ 53))"
      using xt tr by (intro mult_right_mono) simp_all
    then show ?thesis by simp
  qed
  also have "\<dots> = (x * (1 - 1 / 2 ^ 53)) * (1 - 1 / 2 ^ 53)"
    by (simp add: algebra_simps)
  also have "\<dots> \<le> p * (1 - 1 / 2 ^ 53)"
    using pl by (intro mult_right_mono) simp_all
  also have "\<dots> \<le> round_double p" by (rule pb(1))
  finally show "of_int n * of_int t / of_int m - 1 / 2
           \<le> round_double (of_int n * round_double (of_int t / of_int m))"
    by (simp add: p_def s_def x_def)
qed

lemma scaled_side_bounds:
  assumes "0 < n" "n \<le> m" "m \<le> INT_MAX" "0 < t" "t \<le> INT_MAX"
  shows "1 \<le> scaled_side n m t" and "scaled_side n m t \<le> t + 1"
    and "scaled_side n m t \<le> \<lceil>of_int n * of_int t / (of_int m :: rat)\<rceil> + 1"
    and "\<lceil>of_int n * of_int t / (of_int m :: rat)\<rceil> \<le> scaled_side n m t + 1"
proof -
  note b = scaled_product_bounds [OF assms]
  from b(3) show "1 \<le> scaled_side n m t"
    unfolding scaled_side_def by (simp add: int_one_le_iff_zero_less)
  from b(2) b(4) show "scaled_side n m t \<le> t + 1"
    unfolding scaled_side_def by (simp add: ceiling_le_iff)
  from b(2) show "scaled_side n m t \<le> \<lceil>of_int n * of_int t / (of_int m :: rat)\<rceil> + 1"
    unfolding scaled_side_def by (simp add: ceiling_le_iff) linarith
  from b(1) show "\<lceil>of_int n * of_int t / (of_int m :: rat)\<rceil> \<le> scaled_side n m t + 1"
    unfolding scaled_side_def by (simp add: ceiling_le_iff) linarith
qed


section \<open>The steps of \<open>keep_aspect_ratio_resizer\<close>\<close>

lemma below_limit: "\<bar>x\<bar> \<le> 2 ^ 32 \<Longrightarrow> \<not> double_limit \<le> \<bar>x\<bar>"
proof -
  have "(2::rat) ^ 32 < 2 ^ 1024" by (intro power_strict_increasing) simp_all
  then show "\<bar>x\<bar> \<le> 2 ^ 32 \<Longrightarrow> \<not> double_limit \<le> \<bar>x\<bar>"
    unfolding double_limit_def by linarith
qed

lemma double_limit_pos: "0 < double_limit"
  unfolding double_limit_def by (rule zero_less_power) simp

lemma py_truediv_scale:
  assumes "0 < m" "m \<le> INT_MAX" "0 < t" "t \<le> INT_MAX"
  shows "py_truediv t m = Inr (round_double (of_int t / of_int m))"
proof -
  note b = scale_bounds [OF assms]
  from b(1) have "0 < round_double (of_int t / of_int m)"
    by (rule less_le_trans [rotated]) simp
  with b(3) have "\<bar>round_double (of_int t / of_int m)\<bar> \<le> 2 ^ 32" by simp
  from below_limit [OF this] assms(1) show ?thesis
    by (simp add: py_truediv_def Let_def)
qed

lemma py_int_to_float_exact:
  assumes "0 < n" "n \<le> INT_MAX"
  shows "py_int_to_float n = Inr (of_int n)"
proof -
  have lt: "n < 2 ^ 53" using assms(2) by (simp add: INT_MAX_def)
  have r: "round_double (of_int n) = of_int n"
    by (rule round_double_of_int [OF assms(1) lt])
  have "\<bar>of_int n :: rat\<bar> \<le> 2 ^ 32" using assms by (simp add: INT_MAX_def)
  from below_limit [OF this] show ?thesis
    by (simp add: py_int_to_float_def Let_def r)
qed

lemma ceil_scaled_value:
  assumes "0 < n" "n \<le> m" "m \<le> INT_MAX" "0 < t" "t \<le> INT_MAX"
  shows "ceil_scaled n (round_double (of_int t / of_int m)) = Inr (scaled_side n m t)"
proof -
  define r where "r = round_double (of_int n * round_double (of_int t / of_int m))"
  note b = scaled_product_bounds [OF assms, folded r_def]
  have nn: "n \<le> INT_MAX" using assms(2,3) by simp
  have "(of_int t :: rat) \<le> 2147483647" using assms(5) by (simp add: INT_MAX_def)
  with b(2) b(4) have "r \<le> 2 ^ 32" by simp
  with b(3) have "\<bar>r\<bar> \<le> 2 ^ 32" by simp
  from below_limit [OF this] b(3) double_limit_pos
  have nl: "\<not> double_limit \<le> r" "\<not> r \<le> - double_limit"
    by linarith+
  show ?thesis
    by (simp add: ceil_scaled_def py_int_mul_float_def py_int_to_float_exact [OF assms(1) nn]
          float_mul_def Let_def nl scaled_side_def flip: r_def)
qed

lemma ceil_to_32_value:
  assumes "0 < n" "n \<le> INT_MAX"
  shows "ceil_to_32 n = Inr (round_up_32 n)"
proof -
  have lt: "n < 2 ^ 53" using assms(2) by (simp add: INT_MAX_def)
  have "round_double (of_int n / 2 ^ 5) = of_int n / 2 ^ 5"
    by (rule round_double_exact [OF assms(1) lt]) simp
  then have r: "round_double (of_int n / 32) = of_int n / 32" by simp
  have "\<bar>of_int n / 32 :: rat\<bar> \<le> 2 ^ 32" using assms by (simp add: INT_MAX_def)
  then have nl: "\<not> double_limit \<le> \<bar>round_double (of_int n / 32)\<bar>"
    unfolding r by (rule below_limit)
  have "py_truediv n 32 = Inr (of_int n / 32)"
    using nl by (simp add: py_truediv_def Let_def r)
  then show ?thesis
    by (simp add: ceil_to_32_def round_up_32_def)
qed

lemma round_up_32_div: "round_up_32 n = ((n + 31) div 32) * 32"
  unfolding round_up_32_def by (simp add: ceiling_divide_eq_div) linarith?

lemma round_up_32_bounds: "n \<le> round_up_32 n" "round_up_32 n \<le> n + 31" "32 dvd round_up_32 n"
  unfolding round_up_32_div by presburger+

lemma round_up_32_least:
  assumes "32 dvd k" and "n \<le> k"
  shows "round_up_32 n \<le> k"
proof -
  from assms(1) obtain j where k: "k = 32 * j" ..
  have "(n + 31) div 32 \<le> (32 * j + 31) div 32"
    using assms(2) by (intro zdiv_mono1) (simp_all add: k)
  also have "(32 * j + 31) div 32 = j" by simp
  finally show ?thesis by (simp add: round_up_32_div k)
qed

lemma cv2_resize_value:
  assumes "0 < height (cells st src)" "0 < width (cells st src)"
    and "0 < w" "w \<le> INT_MAX" "0 < h" "h \<le> INT_MAX"
  shows "cv2_resize interp st src (w, h) =
           Inr (alloc st \<lparr>height = nat h, width = nat w,
                           pix = interp (cells st src) (nat w) (nat h)\<rparr>)"
  using assms by (simp add: cv2_resize_def Let_def fits_c_int_def INT_MAX_def)

lemma pad_to_target_value:
  assumes "int (height (cells st a)) \<le> th" "th \<le> INT_MAX"
    and "int (width (cells st a)) \<le> tw" "tw \<le> INT_MAX"
  shows "pad_to_target st a th tw =
           Inr (fst (alloc st \<lparr>height = nat th, width = nat tw,
                      pix = (\<lambda>r c. if r < height (cells st a) \<and> c < width (cells st a)
                                    then pix (cells st a) r c else black)\<rparr>),
                next_addr st, (th, tw))"
proof -
  have hh: "height (cells st a) + nat (th - int (height (cells st a))) = nat th"
    and ww: "width (cells st a) + nat (tw - int (width (cells st a))) = nat tw"
    using assms(1,3) by simp_all
  have f: "fits_c_int 0" "fits_c_int (th - int (height (cells st a)))"
      "fits_c_int (tw - int (width (cells st a)))" "fits_c_int th" "fits_c_int tw"
    using assms by (simp_all add: fits_c_int_def INT_MAX_def)
  show ?thesis
    using assms(1,3) f
    by (simp add: pad_to_target_def cv2_copyMakeBorder_def Let_def alloc_def hh ww cong: if_cong)
qed

lemma resizer_result:
  assumes "valid_input st image_ref target_sz"
  shows "keep_aspect_ratio_resizer interp st image_ref target_sz =
           Inr (st\<lparr>cells := (cells st)
                     (next_addr st := resized_image interp (cells st image_ref) target_sz,
                      Suc (next_addr st) := padded_image interp (cells st image_ref) target_sz),
                   next_addr := Suc (Suc (next_addr st))\<rparr>,
                Suc (next_addr st),
                target_shape (cells st image_ref) target_sz)"
proof -
  define img where "img = cells st image_ref"
  define h where "h = int (height img)"
  define w where "w = int (width img)"
  from assms have hw: "0 < h" "h \<le> INT_MAX" "0 < w" "w \<le> INT_MAX"
    and t: "0 < target_sz" "target_sz + 32 \<le> INT_MAX"
    and pos: "0 < height (cells st image_ref)" "0 < width (cells st image_ref)"
    by (simp_all add: valid_input_def h_def w_def img_def)
  from t have t': "target_sz \<le> INT_MAX" by simp
  show ?thesis
  proof (cases "h > w")
    case True
    then have wh: "w \<le> h" by simp
    define sw where "sw = scaled_side w h target_sz"
    note sb = scaled_side_bounds [OF hw(3) wh hw(2) t(1) t', folded sw_def]
    have sw_max: "sw \<le> INT_MAX" using sb(2) t(2) by simp
    have sw_pos: "0 < sw" using sb(1) by simp
    have tv: "py_truediv target_sz h = Inr (round_double (of_int target_sz / of_int h))"
      by (rule py_truediv_scale [OF hw(1,2) t(1) t'])
    have cs: "ceil_scaled w (round_double (of_int target_sz / of_int h)) = Inr sw"
      unfolding sw_def by (rule ceil_scaled_value [OF hw(3) wh hw(2) t(1) t'])
    have rz: "cv2_resize interp st image_ref (sw, target_sz) =
        Inr (alloc st \<lparr>height = nat target_sz, width = nat sw,
                        pix = interp (cells st image_ref) (nat sw) (nat target_sz)\<rparr>)"
      by (rule cv2_resize_value [OF pos sw_pos sw_max t(1) t'])
    have c32: "ceil_to_32 sw = Inr (round_up_32 sw)"
      by (rule ceil_to_32_value [OF sw_pos sw_max])
    define st1 where "st1 = fst (alloc st \<lparr>height = nat target_sz, width = nat sw,
                        pix = interp (cells st image_ref) (nat sw) (nat target_sz)\<rparr>)"
    have st1: "alloc st \<lparr>height = nat target_sz, width = nat sw,
                        pix = interp (cells st image_ref) (nat sw) (nat target_sz)\<rparr>
               = (st1, next_addr st)"
      by (simp add: st1_def alloc_def)
    have c1: "cells st1 (next_addr st) = \<lparr>height = nat target_sz, width = nat sw,
                        pix = interp (cells st image_ref) (nat sw) (nat target_sz)\<rparr>"
      and n1: "next_addr st1 = Suc (next_addr st)"
      by (simp_all add: st1_def alloc_def)
    have r32: "sw \<le> round_up_32 sw" "round_up_32 sw \<le> INT_MAX"
      using round_up_32_bounds [of sw] sb(2) t(2) by simp_all
    have pd: "pad_to_target st1 (next_addr st) target_sz (round_up_32 sw) =
        Inr (fst (alloc st1 \<lparr>height = nat target_sz, width = nat (round_up_32 sw),
               pix = (\<lambda>r c. if r < height (cells st1 (next_addr st))
                                \<and> c < width (cells st1 (next_addr st))
                             then pix (cells st1 (next_addr st)) r c else black)\<rparr>),
             next_addr st1, (target_sz, round_up_32 sw))"
      by (rule pad_to_target_value) (use t t' sw_pos r32 in \<open>simp_all add: c1\<close>)
    have shape: "resized_shape (cells st image_ref) target_sz = (target_sz, sw)"
      using True by (simp add: resized_shape_def sw_def h_def w_def img_def)
    have tshape: "target_shape (cells st image_ref) target_sz = (target_sz, round_up_32 sw)"
      using True by (simp add: target_shape_def shape h_def w_def img_def)
    have gt: "int (width (cells st image_ref)) < int (height (cells st image_ref))"
      using True by (simp add: h_def w_def img_def)
    have "keep_aspect_ratio_resizer interp st image_ref target_sz =
        pad_to_target st1 (next_addr st) target_sz (round_up_32 sw)"
      unfolding keep_aspect_ratio_resizer_def Let_def
      by (simp only: gt if_True tv [unfolded h_def img_def] cs [unfolded h_def w_def img_def]
            rz st1 c32 sum.case prod.case)
    also note pd
    finally show ?thesis
      by (simp add: n1 c1 tshape resized_image_def padded_image_def shape st1_def alloc_def
            cong: if_cong)
  next
    case False
    then have hw': "h \<le> w" by simp
    define sh where "sh = scaled_side h w target_sz"
    note sb = scaled_side_bounds [OF hw(1) hw' hw(4) t(1) t', folded sh_def]
    have sh_max: "sh \<le> INT_MAX" using sb(2) t(2) by simp
    have sh_pos: "0 < sh" using sb(1) by simp
    have tv: "py_truediv target_sz w = Inr (round_double (of_int target_sz / of_int w))"
      by (rule py_truediv_scale [OF hw(3,4) t(1) t'])
    have cs: "ceil_scaled h (round_double (of_int target_sz / of_int w)) = Inr sh"
      unfolding sh_def by (rule ceil_scaled_value [OF hw(1) hw' hw(4) t(1) t'])
    have rz: "cv2_resize interp st image_ref (target_sz, sh) =
        Inr (alloc st \<lparr>height = nat sh, width = nat target_sz,
                        pix = interp (cells st image_ref) (nat target_sz) (nat sh)\<rparr>)"
      by (rule cv2_resize_value [OF pos t(1) t' sh_pos sh_max])
    have c32: "ceil_to_32 sh = Inr (round_up_32 sh)"
      by (rule ceil_to_32_value [OF sh_pos sh_max])
    define st1 where "st1 = fst (alloc st \<lparr>height = nat sh, width = nat target_sz,
                        pix = interp (cells st image_ref) (nat target_sz) (nat sh)\<rparr>)"
    have st1: "alloc st \<lparr>height = nat sh, width = nat target_sz,
                        pix = interp (cells st image_ref) (nat target_sz) (nat sh)\<rparr>
               = (st1, next_addr st)"
      by (simp add: st1_def alloc_def)
    have c1: "cells st1 (next_addr st) = \<lparr>height = nat sh, width = nat target_sz,
                        pix = interp (cells st image_ref) (nat target_sz) (nat sh)\<rparr>"
      and n1: "next_addr st1 = Suc (next_addr st)"
      by (simp_all add: st1_def alloc_def)
    have r32: "sh \<le> round_up_32 sh" "round_up_32 sh \<le> INT_MAX"
      using round_up_32_bounds [of sh] sb(2) t(2) by simp_all
    have pd: "pad_to_target st1 (next_addr st) (round_up_32 sh) target_sz =
        Inr (fst (alloc st1 \<lparr>height = nat (round_up_32 sh), width = nat target_sz,
               pix = (\<lambda>r c. if r < height (cells st1 (next_addr st))
                                \<and> c < width (cells st1 (next_addr st))
                             then pix (cells st1 (next_addr st)) r c else black)\<rparr>),
             next_addr st1, (round_up_32 sh, target_sz))"
      by (rule pad_to_target_value) (use t t' sh_pos r32 in \<open>simp_all add: c1\<close>)
    have shape: "resized_shape (cells st image_ref) target_sz = (sh, target_sz)"
      using False by (simp add: resized_shape_def sh_def h_def w_def img_def)
    have tshape: "target_shape (cells st image_ref) target_sz = (round_up_32 sh, target_sz)"
      using False by (simp add: target_shape_def shape h_def w_def img_def)
    have ngt: "\<not> int (width (cells st image_ref)) < int (height (cells st image_ref))"
      using False by (simp add: h_def w_def img_def)
    have "keep_aspect_ratio_resizer interp st image_ref target_sz =
        pad_to_target st1 (next_addr st) (round_up_32 sh) target_sz"
      unfolding keep_aspect_ratio_resizer_def Let_def
      by (simp only: ngt if_False tv [unfolded w_def img_def] cs [unfolded h_def w_def img_def]
            rz st1 c32 sum.case prod.case)
    also note pd
    finally show ?thesis
      by (simp add: n1 c1 tshape resized_image_def padded_image_def shape st1_def alloc_def
            cong: if_cong)
  qed
qed

section \<open>Properties of \<open>keep_aspect_ratio_resizer\<close>\<close>

subsection \<open>Evaluations\<close>

lemma scaled_side_examples:
  "scaled_side 100 200 256 = 128"
  "scaled_side 480 640 100 = 75"
  "scaled_side 64 64 100 = 100"
  "scaled_side 187 374 192 = 97"
  "scaled_side 187 187 192 = 193"
  by code_simp+

lemma round_up_32_examples:
  "round_up_32 128 = 128" "round_up_32 75 = 96" "round_up_32 100 = 128" "round_up_32 97 = 128"
  "round_up_32 96 = 96" "round_up_32 193 = 224"
  by (simp_all add: round_up_32_div)

lemma scale_128:
  "round_double (32 / 25) = 5764607523034235 / 4503599627370496"
  by code_simp

lemma steps_100_200_256:
  "py_truediv 256 200 = Inr (5764607523034235 / 4503599627370496)"
  "ceil_scaled 100 (5764607523034235 / 4503599627370496) = Inr 128"
  "ceil_to_32 128 = Inr 128"
proof -
  show "py_truediv 256 200 = Inr (5764607523034235 / 4503599627370496)"
    using py_truediv_scale [of 200 256] by (simp add: INT_MAX_def scale_128)
  show "ceil_scaled 100 (5764607523034235 / 4503599627370496) = Inr 128"
    using ceil_scaled_value [of 100 200 256]
    by (simp add: INT_MAX_def scale_128 scaled_side_examples)
  show "ceil_to_32 128 = Inr 128"
    using ceil_to_32_value [of 128] by (simp add: INT_MAX_def round_up_32_examples)
qed

lemma example_store_simps:
  "cells (example_store h w) a = example_image h w" "next_addr (example_store h w) = 1"
  "height (example_image h w) = h" "width (example_image h w) = w"
  by (simp_all add: example_store_def example_image_def)

lemma valid_example_store:
  "0 < h \<Longrightarrow> int h \<le> INT_MAX \<Longrightarrow> 0 < w \<Longrightarrow> int w \<le> INT_MAX \<Longrightarrow> 0 < t \<Longrightarrow> t + 32 \<le> INT_MAX
   \<Longrightarrow> valid_input (example_store h w) 0 t"
  by (simp add: valid_input_def example_store_simps)

lemma valid_examples:
  "valid_input (example_store 100 200) 0 256"
  "valid_input (example_store 480 640) 0 100"
  "valid_input (example_store 64 64) 0 100"
  "valid_input (example_store 374 187) 0 192"
  "valid_input (example_store 187 187) 0 192"
  by (rule valid_example_store; simp add: INT_MAX_def)+

lemma example_shapes:
  "resized_shape (example_image 480 640) 100 = (75, 100)"
  "target_shape (example_image 480 640) 100 = (96, 100)"
  "resized_shape (example_image 64 64) 100 = (100, 100)"
  "target_shape (example_image 64 64) 100 = (128, 100)"
  "resized_shape (example_image 374 187) 192 = (192, 97)"
  "target_shape (example_image 374 187) 192 = (192, 128)"
  "resized_shape (example_image 187 187) 192 = (193, 192)"
  "target_shape (example_image 187 187) 192 = (224, 192)"
  by (simp_all add: target_shape_def resized_shape_def example_store_simps scaled_side_examples
        round_up_32_examples)

subsection \<open>The resized image fits the target shape\<close>

lemma resized_fits_target:
  assumes "valid_input st image_ref target_sz"
  shows "int (height (resized_image interp (cells st image_ref) target_sz))
           \<le> fst (target_shape (cells st image_ref) target_sz)"
    and "int (width (resized_image interp (cells st image_ref) target_sz))
           \<le> snd (target_shape (cells st image_ref) target_sz)"
proof -
  define img where "img = cells st image_ref"
  from assms have hw: "0 < int (height img)" "int (height img) \<le> INT_MAX"
      "0 < int (width img)" "int (width img) \<le> INT_MAX"
    and t: "0 < target_sz" "target_sz \<le> INT_MAX"
    by (simp_all add: valid_input_def img_def)
  have "int (height (resized_image interp img target_sz)) \<le> fst (target_shape img target_sz)
      \<and> int (width (resized_image interp img target_sz)) \<le> snd (target_shape img target_sz)"
  proof (cases "height img > width img")
    case True
    then have le: "int (width img) \<le> int (height img)" by simp
    note sb = scaled_side_bounds [OF hw(3) le hw(2) t]
    show ?thesis
      using True t(1) sb(1)
        round_up_32_bounds(1) [of "scaled_side (int (width img)) (int (height img)) target_sz"]
      by (simp add: target_shape_def resized_image_def resized_shape_def)
  next
    case False
    then have le: "int (height img) \<le> int (width img)" by simp
    note sb = scaled_side_bounds [OF hw(1) le hw(4) t]
    show ?thesis
      using False t(1) sb(1)
        round_up_32_bounds(1) [of "scaled_side (int (height img)) (int (width img)) target_sz"]
      by (simp add: target_shape_def resized_image_def resized_shape_def)
  qed
  then show "int (height (resized_image interp (cells st image_ref) target_sz))
           \<le> fst (target_shape (cells st image_ref) target_sz)"
    and "int (width (resized_image interp (cells st image_ref) target_sz))
           \<le> snd (target_shape (cells st image_ref) target_sz)"
    by (simp_all add: img_def)
qed

text \<open>The returned image has the returned shape, on every valid input.\<close>

lemma returned_image_has_returned_shape:
  assumes "valid_input st image_ref target_sz"
  shows "\<exists>st' out target_height target_width.
           keep_aspect_ratio_resizer interp st image_ref target_sz
             = Inr (st', out, (target_height, target_width))
           \<and> int (height (cells st' out)) = target_height
           \<and> int (width (cells st' out)) = target_width"
proof -
  from assms have t: "0 < target_sz" by (simp add: valid_input_def)
  have "0 \<le> fst (target_shape (cells st image_ref) target_sz)"
    and "0 \<le> snd (target_shape (cells st image_ref) target_sz)"
    using resized_fits_target [OF assms, of interp] by linarith+
  then show ?thesis
    unfolding resizer_result [OF assms, of interp]
    by (cases "target_shape (cells st image_ref) target_sz") (simp add: padded_image_def)
qed

subsection \<open>The claims\<close>

text \<open>
  Claim C1 (the code departs from it). The claim, like the docstring of the function,
  says that both dimensions of the returned image are multiples of 32. The code rounds up
  only the shorter side; the longer side is the target size as given. On a 480 by 640
  image with target size 100 the function returns an image of 96 rows and 100 columns
  and the tuple (96, 100), and 100 is not a multiple of 32.
\<close>

theorem long_side_not_rounded:
  "keep_aspect_ratio_resizer example_interp (example_store 480 640) 0 100 =
       Inr ((example_store 480 640)\<lparr>cells := (cells (example_store 480 640))
                     (1 := \<lparr>height = 75, width = 100,
                            pix = example_interp (example_image 480 640) 100 75\<rparr>,
                      2 := \<lparr>height = 96, width = 100,
                         pix = (\<lambda>r c. if r < 75 \<and> c < 100
                                       then example_interp (example_image 480 640) 100 75 r c
                                       else black)\<rparr>),
                   next_addr := 3\<rparr>, 2, (96, 100))
   \<and> \<not> (32::int) dvd 100"
  unfolding resizer_result [OF valid_examples(2), of example_interp]
  by (simp add: example_store_simps example_shapes resized_image_def padded_image_def
        numeral_2_eq_2 numeral_3_eq_3 cong: if_cong)

text \<open>
  Claim C2, as stated, fails twice. On a square image (height = width) the code takes the
  other branch: for 64 by 64 and target size 100 it returns the shape (128, 100), so the
  target height is not the target size. And the scaled width is computed in double
  precision: for 374 by 187 and target size 192 the product \<open>187 * (192 / 374)\<close> is a
  little more than 96 as a double, its ceiling is 97 and the target width is 128, although
  \<open>ceil(187 * 192 / 374) = 96\<close> is itself a multiple of 32.
\<close>

theorem target_shape_claim_counterexample:
  "map_sum id (snd \<circ> snd)
       (keep_aspect_ratio_resizer example_interp (example_store 64 64) 0 100) = Inr (128, 100)
   \<and> (128::int) \<noteq> 100
   \<and> map_sum id (snd \<circ> snd)
       (keep_aspect_ratio_resizer example_interp (example_store 374 187) 0 192) = Inr (192, 128)
   \<and> \<lceil>187 * 192 / (374 :: rat)\<rceil> = 96
   \<and> round_up_32 96 = 96
   \<and> (128::int) \<noteq> 96"
  unfolding resizer_result [OF valid_examples(3), of example_interp]
    resizer_result [OF valid_examples(4), of example_interp]
  by (simp add: example_store_simps example_shapes round_up_32_examples)

text \<open>
  Claim C2, amended. For every valid input whose height is strictly greater than its
  width, the target height is the target size, and the target width is the smallest
  multiple of 32 that is at least the scaled width (the width of the resized image), where
  the scaled width is \<open>ceil(width * (target_size / height))\<close> as computed in double
  precision; it differs from the exact \<open>ceil(width * target_size / height)\<close> by at most 1.
\<close>

theorem target_shape_of_tall_image:
  assumes "valid_input st image_ref target_sz"
    and "width (cells st image_ref) < height (cells st image_ref)"
  shows "\<exists>st' out target_height target_width.
           keep_aspect_ratio_resizer interp st image_ref target_sz
             = Inr (st', out, (target_height, target_width))
           \<and> target_height = target_sz
           \<and> 32 dvd target_width
           \<and> int (width (cells st' (next_addr st))) \<le> target_width
           \<and> (\<forall>k. 32 dvd k \<and> int (width (cells st' (next_addr st))) \<le> k \<longrightarrow> target_width \<le> k)
           \<and> int (width (cells st' (next_addr st)))
               = scaled_side (int (width (cells st image_ref))) (int (height (cells st image_ref)))
                   target_sz
           \<and> int (width (cells st' (next_addr st)))
               \<le> \<lceil>of_int (int (width (cells st image_ref))) * of_int target_sz
                    / (of_int (int (height (cells st image_ref))) :: rat)\<rceil> + 1
           \<and> \<lceil>of_int (int (width (cells st image_ref))) * of_int target_sz
                    / (of_int (int (height (cells st image_ref))) :: rat)\<rceil>
               \<le> int (width (cells st' (next_addr st))) + 1"
proof -
  define img where "img = cells st image_ref"
  define sw where "sw = scaled_side (int (width img)) (int (height img)) target_sz"
  from assms(1) have hw: "0 < int (height img)" "int (height img) \<le> INT_MAX"
      "0 < int (width img)" "int (width img) \<le> INT_MAX"
    and t: "0 < target_sz" "target_sz \<le> INT_MAX"
    by (simp_all add: valid_input_def img_def)
  from assms(2) have le: "int (width img) \<le> int (height img)" by (simp add: img_def)
  note sb = scaled_side_bounds [OF hw(3) le hw(2) t, folded sw_def]
  have sh: "target_shape img target_sz = (target_sz, round_up_32 sw)"
    and rw: "int (width (resized_image interp img target_sz)) = sw"
    using assms(2) sb(1)
    by (simp_all add: target_shape_def resized_shape_def resized_image_def img_def sw_def)
  note ru = round_up_32_bounds [of sw]
  have least: "\<forall>k. 32 dvd k \<and> sw \<le> k \<longrightarrow> round_up_32 sw \<le> k"
    using round_up_32_least by blast
  show ?thesis
    unfolding resizer_result [OF assms(1), of interp]
    using sb(3,4) ru(1,3) least
    by (simp add: sh [unfolded img_def] rw [unfolded img_def] sw_def img_def)
qed

theorem target_shape_of_tall_image_witness:
  "valid_input (example_store 374 187) 0 192
   \<and> width (cells (example_store 374 187) 0) < height (cells (example_store 374 187) 0)
   \<and> (\<exists>st' out.
         keep_aspect_ratio_resizer example_interp (example_store 374 187) 0 192
           = Inr (st', out, (192, 128))
         \<and> int (width (cells st' (next_addr (example_store 374 187)))) = 97)"
proof -
  have w: "width (cells (example_store 374 187) 0) < height (cells (example_store 374 187) 0)"
    by (simp add: example_store_simps)
  from target_shape_of_tall_image [OF valid_examples(4) w, of example_interp]
  obtain st' out th tw where
    r: "keep_aspect_ratio_resizer example_interp (example_store 374 187) 0 192
          = Inr (st', out, (th, tw))"
    and th: "th = 192"
    and d: "32 dvd tw" "int (width (cells st' (next_addr (example_store 374 187)))) \<le> tw"
      "\<forall>k. 32 dvd k \<and> int (width (cells st' (next_addr (example_store 374 187)))) \<le> k
          \<longrightarrow> tw \<le> k"
    and sw: "int (width (cells st' (next_addr (example_store 374 187))))
          = scaled_side (int (width (cells (example_store 374 187) 0)))
              (int (height (cells (example_store 374 187) 0))) 192"
    by blast
  from sw have sw97: "int (width (cells st' (next_addr (example_store 374 187)))) = 97"
    by (simp add: example_store_simps scaled_side_examples)
  from d(3) sw97 have "tw \<le> 128" by simp
  moreover from d(1,2) sw97 have "128 \<le> tw" by presburger
  ultimately have tw: "tw = 128" by simp
  show ?thesis
    using valid_examples(4) w r th tw sw97 by blast
qed

text \<open>
  Claim C5. On every valid input, the returned image is the resized image with a border
  added at the bottom and at the right only: its height and width are those of the resized
  image plus \<open>target_height - resized_height\<close> and \<open>target_width - resized_width\<close>; every
  pixel inside the resized region is the pixel of the resized image at the same row and
  column (so nothing is added at the top or at the left), and every other pixel is black.
\<close>

theorem padding_bottom_right_only:
  assumes "valid_input st image_ref target_sz"
  shows "\<exists>st' out target_height target_width.
           keep_aspect_ratio_resizer interp st image_ref target_sz
             = Inr (st', out, (target_height, target_width))
           \<and> cells st' (next_addr st) = resized_image interp (cells st image_ref) target_sz
           \<and> height (cells st' out) = height (cells st' (next_addr st))
                + nat (target_height - int (height (cells st' (next_addr st))))
           \<and> width (cells st' out) = width (cells st' (next_addr st))
                + nat (target_width - int (width (cells st' (next_addr st))))
           \<and> (\<forall>r c. r < height (cells st' (next_addr st)) \<and> c < width (cells st' (next_addr st))
                  \<longrightarrow> pix (cells st' out) r c = pix (cells st' (next_addr st)) r c)
           \<and> (\<forall>r c. \<not> (r < height (cells st' (next_addr st))
                         \<and> c < width (cells st' (next_addr st)))
                  \<longrightarrow> pix (cells st' out) r c = black)"
proof -
  define R where "R = resized_image interp (cells st image_ref) target_sz"
  obtain th tw where sh: "target_shape (cells st image_ref) target_sz = (th, tw)"
    by (cases "target_shape (cells st image_ref) target_sz")
  from resized_fits_target [OF assms, of interp]
  have nn: "int (height R) \<le> th" "int (width R) \<le> tw"
    by (simp_all add: sh R_def)
  have hs: "height R + nat (th - int (height R)) = nat th"
    and ws: "width R + nat (tw - int (width R)) = nat tw"
    using nn by simp_all
  show ?thesis
    unfolding resizer_result [OF assms, of interp]
    by (simp add: sh padded_image_def hs ws flip: R_def)
qed

theorem padding_bottom_right_only_witness:
  "valid_input (example_store 480 640) 0 100
   \<and> (\<exists>st' out.
         keep_aspect_ratio_resizer example_interp (example_store 480 640) 0 100
           = Inr (st', out, (96, 100))
         \<and> height (cells st' 1) = 75 \<and> width (cells st' 1) = 100
         \<and> height (cells st' out) = 75 + 21 \<and> width (cells st' out) = 100 + 0
         \<and> pix (cells st' out) 74 99 = pix (cells st' 1) 74 99
         \<and> pix (cells st' out) 75 99 = black)"
proof -
  from padding_bottom_right_only [OF valid_examples(2), of example_interp]
  obtain st' out th tw where
    r: "keep_aspect_ratio_resizer example_interp (example_store 480 640) 0 100
          = Inr (st', out, (th, tw))"
    and c: "cells st' (next_addr (example_store 480 640))
          = resized_image example_interp (cells (example_store 480 640) 0) 100"
    and hw: "height (cells st' out) = height (cells st' (next_addr (example_store 480 640)))
          + nat (th - int (height (cells st' (next_addr (example_store 480 640)))))"
      "width (cells st' out) = width (cells st' (next_addr (example_store 480 640)))
          + nat (tw - int (width (cells st' (next_addr (example_store 480 640)))))"
    and p: "\<forall>r c. r < height (cells st' (next_addr (example_store 480 640)))
               \<and> c < width (cells st' (next_addr (example_store 480 640)))
             \<longrightarrow> pix (cells st' out) r c
                   = pix (cells st' (next_addr (example_store 480 640))) r c"
      "\<forall>r c. \<not> (r < height (cells st' (next_addr (example_store 480 640)))
                  \<and> c < width (cells st' (next_addr (example_store 480 640))))
             \<longrightarrow> pix (cells st' out) r c = black"
    by blast
  from r resizer_result [OF valid_examples(2), of example_interp]
  have sh: "th = 96" "tw = 100"
    by (simp_all add: example_store_simps example_shapes)
  have c1: "height (cells st' 1) = 75" "width (cells st' 1) = 100"
    using c by (simp_all add: example_store_simps resized_image_def example_shapes)
  have p1: "pix (cells st' out) 74 99 = pix (cells st' 1) 74 99"
    using p(1) c1 by (simp add: example_store_simps)
  have p2: "pix (cells st' out) 75 99 = black"
    using p(2) c1 by (simp add: example_store_simps)
  show ?thesis
    using valid_examples(2) r hw c1 p1 p2 by (auto simp: sh example_store_simps)
qed

text \<open>
  Claim C6. For an image of height 100 and width 200 and target size 256 the function
  takes the branch for width \<open>>=\<close> height; the scale is the double written \<open>1.28\<close>, the
  scaled height is 128, which is its own round-up to 32; the image is resized to 128 rows
  and 256 columns, padded by 0 rows and 0 columns, and returned with the tuple (128, 256).
\<close>

theorem resize_100_by_200_to_256:
  assumes "image_ref < next_addr st"
    and "height (cells st image_ref) = 100" and "width (cells st image_ref) = 200"
  shows "\<not> int (height (cells st image_ref)) > int (width (cells st image_ref))
       \<and> py_truediv 256 (int (width (cells st image_ref)))
           = Inr (5764607523034235 / 4503599627370496)
       \<and> round_double (32 / 25) = 5764607523034235 / 4503599627370496
       \<and> ceil_scaled (int (height (cells st image_ref))) (5764607523034235 / 4503599627370496)
           = Inr 128
       \<and> ceil_to_32 128 = Inr 128
       \<and> keep_aspect_ratio_resizer interp st image_ref 256 =
           Inr (st\<lparr>cells := (cells st)
                     (next_addr st :=
                        \<lparr>height = 128, width = 256, pix = interp (cells st image_ref) 256 128\<rparr>,
                      Suc (next_addr st) :=
                        \<lparr>height = 128, width = 256,
                         pix = (\<lambda>r c. if r < 128 \<and> c < 256
                                       then interp (cells st image_ref) 256 128 r c
                                       else black)\<rparr>),
                   next_addr := Suc (Suc (next_addr st))\<rparr>,
                Suc (next_addr st), (128, 256))"
proof -
  have v: "valid_input st image_ref 256"
    using assms by (simp add: valid_input_def INT_MAX_def)
  have rs: "resized_shape (cells st image_ref) 256 = (128, 256)"
    by (simp add: resized_shape_def assms scaled_side_examples)
  have ts: "target_shape (cells st image_ref) 256 = (128, 256)"
    by (simp add: target_shape_def rs assms round_up_32_examples)
  show ?thesis
    unfolding resizer_result [OF v, of interp]
    by (simp add: assms steps_100_200_256 scale_128 rs ts resized_image_def padded_image_def
          cong: if_cong)
qed

theorem resize_100_by_200_to_256_witness:
  "(0::nat) < next_addr (example_store 100 200)
   \<and> height (cells (example_store 100 200) 0) = 100
   \<and> width (cells (example_store 100 200) 0) = 200
   \<and> keep_aspect_ratio_resizer example_interp (example_store 100 200) 0 256 =
       Inr ((example_store 100 200)\<lparr>cells := (cells (example_store 100 200))
                     (1 := \<lparr>height = 128, width = 256,
                            pix = example_interp (example_image 100 200) 256 128\<rparr>,
                      2 := \<lparr>height = 128, width = 256,
                         pix = (\<lambda>r c. if r < 128 \<and> c < 256
                                       then example_interp (example_image 100 200) 256 128 r c
                                       else black)\<rparr>),
                   next_addr := 3\<rparr>, 2, (128, 256))"
proof -
  have a: "(0::nat) < next_addr (example_store 100 200)"
    and h: "height (cells (example_store 100 200) 0) = 100"
    and w: "width (cells (example_store 100 200) 0) = 200"
    by (simp_all add: example_store_simps)
  show ?thesis
    using resize_100_by_200_to_256 [OF a h w, of example_interp] a h w
    by (simp add: example_store_simps numeral_2_eq_2 numeral_3_eq_3 cong: if_cong)
qed

text \<open>
  Claim C7. On every valid input the function leaves the caller's image as it was: the
  store after the call holds at the address of the input, and at every other address
  that was allocated before the call, exactly what it held before. The resize step and
  the padding step each allocate one new buffer (the next two free addresses); the result
  is the second of them.
\<close>

theorem input_image_not_mutated:
  assumes "valid_input st image_ref target_sz"
  shows "\<exists>st' out shape.
           keep_aspect_ratio_resizer interp st image_ref target_sz = Inr (st', out, shape)
           \<and> cells st' image_ref = cells st image_ref
           \<and> (\<forall>a. a < next_addr st \<longrightarrow> cells st' a = cells st a)
           \<and> next_addr st' = next_addr st + 2
           \<and> out = next_addr st + 1
           \<and> cells st' (next_addr st) = resized_image interp (cells st image_ref) target_sz"
proof -
  from assms have a: "image_ref < next_addr st" by (simp add: valid_input_def)
  show ?thesis
    unfolding resizer_result [OF assms, of interp] using a by simp
qed

theorem input_image_not_mutated_witness:
  "valid_input (example_store 100 200) 0 256
   \<and> (\<exists>st' out shape.
         keep_aspect_ratio_resizer example_interp (example_store 100 200) 0 256
           = Inr (st', out, shape)
         \<and> cells st' 0 = example_image 100 200
         \<and> next_addr st' = 3 \<and> out = 2)"
proof -
  from input_image_not_mutated [OF valid_examples(1), of example_interp]
  obtain st' out shape where
    "keep_aspect_ratio_resizer example_interp (example_store 100 200) 0 256
       = Inr (st', out, shape)"
    "cells st' 0 = cells (example_store 100 200) 0"
    "next_addr st' = next_addr (example_store 100 200) + 2"
    "out = next_addr (example_store 100 200) + 1"
    by blast
  then show ?thesis
    using valid_examples(1) by (auto simp: example_store_simps)
qed

text \<open>
  Claim C10. On every valid input the call succeeds, and the two padding amounts that it
  computes, target height minus the height of the resized image and target width minus
  the width of the resized image, are not negative; so the call of \<open>cv2.copyMakeBorder\<close>
  is made with border widths it accepts.
\<close>

theorem padding_amounts_nonnegative:
  assumes "valid_input st image_ref target_sz"
  shows "\<exists>st' out target_height target_width.
           keep_aspect_ratio_resizer interp st image_ref target_sz
             = Inr (st', out, (target_height, target_width))
           \<and> cells st' (next_addr st) = resized_image interp (cells st image_ref) target_sz
           \<and> 0 \<le> target_height - int (height (cells st' (next_addr st)))
           \<and> 0 \<le> target_width - int (width (cells st' (next_addr st)))"
proof -
  obtain th tw where sh: "target_shape (cells st image_ref) target_sz = (th, tw)"
    by (cases "target_shape (cells st image_ref) target_sz")
  from resized_fits_target [OF assms, of interp]
  show ?thesis
    unfolding resizer_result [OF assms, of interp]
    by (simp add: sh)
qed

theorem padding_amounts_nonnegative_witness:
  "valid_input (example_store 187 187) 0 192
   \<and> (\<exists>st' out.
         keep_aspect_ratio_resizer example_interp (example_store 187 187) 0 192
           = Inr (st', out, (224, 192))
         \<and> height (cells st' 1) = 193 \<and> width (cells st' 1) = 192
         \<and> (0::int) \<le> 224 - 193 \<and> (0::int) \<le> 192 - 192)"
proof -
  from padding_amounts_nonnegative [OF valid_examples(5), of example_interp]
  obtain st' out th tw where
    r: "keep_aspect_ratio_resizer example_interp (example_store 187 187) 0 192
          = Inr (st', out, (th, tw))"
    and c: "cells st' (next_addr (example_store 187 187))
          = resized_image example_interp (cells (example_store 187 187) 0) 192"
    by blast
  from r resizer_result [OF valid_examples(5), of example_interp]
  have sh: "th = 224" "tw = 192"
    by (simp_all add: example_store_simps example_shapes)
  have c1: "height (cells st' 1) = 193" "width (cells st' 1) = 192"
    using c by (simp_all add: example_store_simps resized_image_def example_shapes)
  show ?thesis
    using valid_examples(5) r c1 by (auto simp: sh)
qed

section \<open>Properties of \<open>visualize\<close>\<close>








lemma visualize_persons_skip:
  "\<forall>p \<in> set ps. float_lt (score p) it \<Longrightarrow> visualize_persons draw kc kt it ps b = Inr b"
  by (induction ps) simp_all





text \<open>
  Claim C4. When every person of the list has a score strictly below the instance
  threshold, \<open>visualize\<close> returns the address it was given and leaves the whole store, so
  also every pixel of the image, as it was.
\<close>

theorem visualize_all_below_threshold:
  assumes "\<forall>p \<in> set list_persons. float_lt (score p) instance_threshold"
  shows "visualize draw st image_ref list_persons keypoint_color keypoint_threshold
           instance_threshold = Inr (st, image_ref)"
  by (simp add: visualize_def visualize_persons_skip [OF assms])

theorem visualize_all_below_threshold_witness:
  "float_lt (score weak_person) (Finite (1 / 10))
   \<and> visualize record_call empty_log_store 0 [weak_person] (0, 255, 0) threshold_005
       (Finite (1 / 10))
     = Inr (empty_log_store, 0)"
proof -
  have h: "\<forall>p \<in> set [weak_person]. float_lt (score p) (Finite (1 / 10))"
    by (simp add: weak_person_def)
  show ?thesis
    using visualize_all_below_threshold [OF h, of record_call empty_log_store 0 "(0, 255, 0)"
        threshold_005] h
    by simp
qed

text \<open>
  Claim C9. On an empty list of persons, \<open>visualize\<close> draws nothing: it returns the address
  of the very buffer it was given, and the store is unchanged.
\<close>

theorem visualize_empty_list:
  "visualize draw st image_ref [] keypoint_color keypoint_threshold instance_threshold
     = Inr (st, image_ref)"
  by (simp add: visualize_def)

text \<open>
  Claim C8. The edge colour table has exactly 18 entries with pairwise different keys, and
  both indices of every key lie between 0 and 16. (The table is a constant: no operation
  of the module changes it.)
\<close>

theorem edge_table_entries:
  "length KEYPOINT_EDGE_INDS_TO_COLOR = 18
   \<and> distinct (map fst KEYPOINT_EDGE_INDS_TO_COLOR)
   \<and> list_all (\<lambda>(edge_pair, color). 0 \<le> fst edge_pair \<and> fst edge_pair \<le> 16
                                  \<and> 0 \<le> snd edge_pair \<and> snd edge_pair \<le> 16)
        KEYPOINT_EDGE_INDS_TO_COLOR"
  by (simp add: KEYPOINT_EDGE_INDS_TO_COLOR_def)

end
